theory Spec2Isabelle
  imports Main
begin

section \<open>Kruskal's minimum spanning tree with union-find (kruskal.py)\<close>

subsection \<open>Data model\<close>

text \<open>
  The only exception the program can raise is Python's \<open>IndexError\<close> (a list index out
  of range); nothing in the file catches it, so it ends the run.
\<close>

datatype error = IndexError

text \<open>
  An edge is the list \<open>[u, v, w]\<close> that \<open>add_edge\<close> appends: two endpoints and a weight.
  Endpoints and weights are Python integers (unbounded), hence \<open>int\<close>.
\<close>

type_synonym edge = "int \<times> int \<times> int"

text \<open>The class \<open>Graph\<close>: \<open>self.v\<close> is the number of vertices, \<open>self.graph\<close> the edge list.\<close>

record Graph =
  v :: int
  graph :: "edge list"

definition add_edge :: "Graph \<Rightarrow> int \<Rightarrow> int \<Rightarrow> int \<Rightarrow> Graph" where
  "add_edge G a b w = G\<lparr>graph := graph G @ [(a, b, w)]\<rparr>"

text \<open>
  Python list indexing \<open>xs[i]\<close> and item assignment \<open>xs[i] = x\<close>: an index in
  \<open>[0, len)\<close> is used as it is, an index in \<open>[-len, 0)\<close> counts from the end, and any
  other index raises \<open>IndexError\<close>.
\<close>

definition getitem :: "'a list \<Rightarrow> int \<Rightarrow> error + 'a" where
  "getitem xs i =
     (if 0 \<le> i \<and> i < int (length xs) then Inr (xs ! nat i)
      else if - int (length xs) \<le> i \<and> i < 0 then Inr (xs ! nat (int (length xs) + i))
      else Inl IndexError)"

definition setitem :: "'a list \<Rightarrow> int \<Rightarrow> 'a \<Rightarrow> error + 'a list" where
  "setitem xs i x =
     (if 0 \<le> i \<and> i < int (length xs) then Inr (xs[nat i := x])
      else if - int (length xs) \<le> i \<and> i < 0 then Inr (xs[nat (int (length xs) + i) := x])
      else Inl IndexError)"

text \<open>
  The outcome of a call is \<open>None\<close> when the call does not return, \<open>Some (Inl e)\<close> when it
  raises \<open>e\<close>, and \<open>Some (Inr x)\<close> when it returns \<open>x\<close>. \<open>bind_res\<close> sequences two steps:
  the second runs only when the first returned.
\<close>

definition bind_res :: "(error + 'a) option \<Rightarrow> ('a \<Rightarrow> (error + 'b) option) \<Rightarrow> (error + 'b) option" where
  "bind_res m f = (case m of None \<Rightarrow> None | Some (Inl e) \<Rightarrow> Some (Inl e) | Some (Inr x) \<Rightarrow> f x)"

lemma bind_res_cong [fundef_cong]:
  "m = m' \<Longrightarrow> (\<And>x. m' = Some (Inr x) \<Longrightarrow> f x = f' x) \<Longrightarrow> bind_res m f = bind_res m' f'"
  by (auto simp: bind_res_def split: option.splits sum.splits)

lemma bind_res_simps [simp]:
  "bind_res None f = None"
  "bind_res (Some (Inl e)) f = Some (Inl e)"
  "bind_res (Some (Inr x)) f = f x"
  by (simp_all add: bind_res_def)

subsection \<open>Union-find\<close>

text \<open>
  \<open>Graph.find\<close>: follow \<open>parent\<close> from \<open>i\<close> until an entry is its own index. The function
  only reads \<open>parent\<close>; it assigns nothing. The recursion need not end (a cycle in
  \<open>parent\<close>), hence the option domain; the interpreter's bound on the recursion depth is
  not modelled.
\<close>

partial_function (option) find_set :: "int list \<Rightarrow> int \<Rightarrow> (error + int) option" where
  "find_set parent i =
     (case getitem parent i of
        Inl e \<Rightarrow> Some (Inl e)
      | Inr p \<Rightarrow> if p = i then Some (Inr i) else find_set parent p)"

declare find_set.simps [code]

text \<open>
  \<open>Graph.union\<close>: finds the roots of \<open>x\<close> and \<open>y\<close> and hangs one under the other by
  rank. It mutates \<open>parent\<close> and \<open>rank\<close>; the model returns both lists.
\<close>

definition union_rank ::
  "int list \<Rightarrow> int list \<Rightarrow> int \<Rightarrow> int \<Rightarrow> (error + int list \<times> int list) option" where
  "union_rank parent rank x y =
     bind_res (find_set parent x) (\<lambda>xroot.
     bind_res (find_set parent y) (\<lambda>yroot.
     bind_res (Some (getitem rank xroot)) (\<lambda>rx.
     bind_res (Some (getitem rank yroot)) (\<lambda>ry.
       if rx < ry then
         bind_res (Some (setitem parent xroot yroot)) (\<lambda>parent'.
         Some (Inr (parent', rank)))
       else if rx > ry then
         bind_res (Some (setitem parent yroot xroot)) (\<lambda>parent'.
         Some (Inr (parent', rank)))
       else
         bind_res (Some (setitem parent yroot xroot)) (\<lambda>parent'.
         bind_res (Some (getitem rank xroot)) (\<lambda>r.
         bind_res (Some (setitem rank xroot (r + 1))) (\<lambda>rank'.
         Some (Inr (parent', rank')))))))))"

subsection \<open>The greedy loop\<close>

text \<open>The initialisation loop over \<open>range(self.v)\<close>: append \<open>node\<close> to \<open>parent\<close> and 0 to \<open>rank\<close>.\<close>

definition make_sets :: "int \<Rightarrow> int list \<times> int list" where
  "make_sets n =
     foldl (\<lambda>(parent, rank) node. (parent @ [node], rank @ [0])) ([], []) (map int [0..<nat n])"

text \<open>
  The \<open>while e < self.v - 1\<close> loop. \<open>g\<close> is the sorted \<open>self.graph\<close>, \<open>i\<close> the index of the
  next edge, \<open>e\<close> the number of accepted edges, \<open>mst\<close> the accepted edges. Reading
  \<open>self.graph[i]\<close> past the end raises \<open>IndexError\<close>.
\<close>

function kruskal_loop ::
  "int \<Rightarrow> edge list \<Rightarrow> int list \<Rightarrow> int list \<Rightarrow> nat \<Rightarrow> nat \<Rightarrow> edge list \<Rightarrow> (error + edge list) option" where
  "kruskal_loop n g parent rank i e mst =
     (if int e < n - 1 then
        (case getitem g (int i) of
           Inl err \<Rightarrow> Some (Inl err)
         | Inr (a, b, w) \<Rightarrow>
             bind_res (find_set parent a) (\<lambda>x.
             bind_res (find_set parent b) (\<lambda>y.
               if \<not> x = y then
                 bind_res (union_rank parent rank x y) (\<lambda>(parent', rank').
                 kruskal_loop n g parent' rank' (i + 1) (e + 1) (mst @ [(a, b, w)]))
               else kruskal_loop n g parent rank (i + 1) e mst)))
      else Some (Inr mst))"
  by pat_completeness auto
termination
  by (relation "measure (\<lambda>(n, g, parent, rank, i, e, mst). length g - i)")
     (auto simp: getitem_def split: if_splits)

text \<open>The summation loop over \<open>mst\<close> that computes \<open>minimum_cost\<close>.\<close>

definition minimum_cost :: "edge list \<Rightarrow> int" where
  "minimum_cost mst = foldl (\<lambda>c (a, b, weight). c + weight) 0 mst"

text \<open>
  \<open>Graph.kruskalMST\<close>. It rebinds \<open>self.graph\<close> to the sorted list (\<open>sorted\<close> is stable),
  runs the loop and prints the accepted edges and their total weight. The model returns
  the object after the call together with what was printed, or with the exception.
\<close>

definition kruskalMST :: "Graph \<Rightarrow> (Graph \<times> (error + edge list \<times> int)) option" where
  "kruskalMST G =
     (let G' = G\<lparr>graph := sort_key (\<lambda>(a, b, w). w) (graph G)\<rparr>;
          (parent, rank) = make_sets (v G')
      in case kruskal_loop (v G') (graph G') parent rank 0 0 [] of
           None \<Rightarrow> None
         | Some (Inl err) \<Rightarrow> Some (G', Inl err)
         | Some (Inr mst) \<Rightarrow> Some (G', Inr (mst, minimum_cost mst)))"

text \<open>The graph built under \<open>__main__\<close>.\<close>

definition main_graph :: Graph where
  "main_graph =
     add_edge (add_edge (add_edge (add_edge (add_edge \<lparr>v = 4, graph = []\<rparr>
       0 1 10) 0 2 6) 0 3 5) 1 3 15) 2 3 4"

section \<open>Graphs, connectivity and trees\<close>

text \<open>
  The edges are undirected: \<open>links S\<close> holds both orientations of every edge of \<open>S\<close>, and
  two vertices are joined by \<open>S\<close> when a path of edges of \<open>S\<close> leads from one to the other
  (the empty path joins a vertex to itself).
\<close>

definition links :: "edge set \<Rightarrow> (int \<times> int) set" where
  "links S = (\<lambda>(a, b, w). (a, b)) ` S \<union> (\<lambda>(a, b, w). (b, a)) ` S"

definition joined :: "edge set \<Rightarrow> int \<Rightarrow> int \<Rightarrow> bool" where
  "joined S a b \<longleftrightarrow> a = b \<or> (a, b) \<in> (links S)\<^sup>+"

text \<open>\<open>S\<close> connects the vertices \<open>0, ..., n - 1\<close> when it joins every two of them.\<close>

definition connects :: "int \<Rightarrow> edge set \<Rightarrow> bool" where
  "connects n S \<longleftrightarrow> (\<forall>a \<in> {0..<n}. \<forall>b \<in> {0..<n}. joined S a b)"

text \<open>
  A set of edges has no cycle when no edge lies on one: taking any edge away separates
  its endpoints (so a self-loop is a cycle, and so are two parallel edges). In a list of
  edges an edge that occurs twice is parallel to itself.
\<close>

definition forest :: "edge set \<Rightarrow> bool" where
  "forest S \<longleftrightarrow> (\<forall>x \<in> S. \<not> joined (S - {x}) (fst x) (fst (snd x)))"

definition acyclic_edges :: "edge list \<Rightarrow> bool" where
  "acyclic_edges es \<longleftrightarrow> distinct es \<and> forest (set es)"

text \<open>
  The endpoints of a graph's edges are vertices of it. A connected graph has a vertex and
  joins every two of its vertices (the usual convention; the interface takes a positive
  vertex count). A spanning tree of a graph is a list of its edges without a cycle that
  connects all its vertices.
\<close>

definition valid_graph :: "Graph \<Rightarrow> bool" where
  "valid_graph G \<longleftrightarrow> (\<forall>(a, b, w) \<in> set (graph G). a \<in> {0..<v G} \<and> b \<in> {0..<v G})"

definition connected_graph :: "Graph \<Rightarrow> bool" where
  "connected_graph G \<longleftrightarrow> 0 < v G \<and> connects (v G) (set (graph G))"

definition spanning_tree :: "Graph \<Rightarrow> edge list \<Rightarrow> bool" where
  "spanning_tree G T \<longleftrightarrow> set T \<subseteq> set (graph G) \<and> acyclic_edges T \<and> connects (v G) (set T)"

definition total_weight :: "edge list \<Rightarrow> int" where
  "total_weight es = sum_list (map (\<lambda>(a, b, w). w) es)"

definition wt :: "edge set \<Rightarrow> int" where
  "wt S = (\<Sum>(a, b, w) \<in> S. w)"

subsection \<open>Connectivity is an equivalence that grows edge by edge\<close>

lemma links_iff: "(a, b) \<in> links S \<longleftrightarrow> (\<exists>w. (a, b, w) \<in> S \<or> (b, a, w) \<in> S)"
  by (force simp: links_def)

lemma sym_links: "sym (links S)"
  by (auto simp: sym_def links_iff)

lemma links_mono: "S \<subseteq> S' \<Longrightarrow> links S \<subseteq> links S'"
  unfolding links_def by blast

lemma links_insert: "links (insert (c, d, w) S) = insert (c, d) (insert (d, c) (links S))"
  by (auto simp: links_iff)

lemma joined_rtrancl: "joined S a b \<longleftrightarrow> (a, b) \<in> (links S)\<^sup>*"
  by (auto simp: joined_def rtrancl_eq_or_trancl)

lemma joined_refl [simp]: "joined S a a"
  by (simp add: joined_def)

lemma joined_sym: "joined S a b \<Longrightarrow> joined S b a"
  using sym_rtrancl [OF sym_links, of S] by (auto simp: joined_rtrancl sym_def)

lemma joined_trans: "joined S a b \<Longrightarrow> joined S b c \<Longrightarrow> joined S a c"
  by (auto simp: joined_rtrancl)

lemma joined_mono: "S \<subseteq> S' \<Longrightarrow> joined S a b \<Longrightarrow> joined S' a b"
  using rtrancl_mono [OF links_mono, of S S'] by (auto simp: joined_rtrancl)

lemma joined_edge: "(a, b, w) \<in> S \<Longrightarrow> joined S a b"
proof -
  assume "(a, b, w) \<in> S"
  then have "(a, b) \<in> links S" unfolding links_iff by blast
  then show ?thesis by (simp add: joined_rtrancl)
qed

lemma joined_closed:
  assumes e: "\<And>a b w. (a, b, w) \<in> S \<Longrightarrow> R a b" and r: "\<And>a. R a a"
    and s: "\<And>a b. R a b \<Longrightarrow> R b a" and t: "\<And>a b c. R a b \<Longrightarrow> R b c \<Longrightarrow> R a c"
    and j: "joined S a b"
  shows "R a b"
proof -
  from j have "(a, b) \<in> (links S)\<^sup>*" by (simp add: joined_rtrancl)
  then show ?thesis
  proof (induction rule: rtrancl_induct)
    case base
    show ?case by (rule r)
  next
    case (step y z)
    from step.hyps(2) have "R y z" using e s by (auto simp: links_iff)
    with step.IH show ?case by (rule t)
  qed
qed

lemma joined_insert:
  "joined (insert (c, d, w) S) a b \<longleftrightarrow>
     joined S a b \<or> (joined S a c \<and> joined S d b) \<or> (joined S a d \<and> joined S c b)"
  (is "?L \<longleftrightarrow> ?R")
proof
  assume ?L
  then have "(a, b) \<in> (links (insert (c, d, w) S))\<^sup>*" by (simp add: joined_rtrancl)
  then show ?R
  proof (induction rule: rtrancl_induct)
    case base
    show ?case by simp
  next
    case (step y z)
    from step.hyps(2) consider "y = c \<and> z = d" | "y = d \<and> z = c" | "(y, z) \<in> links S"
      by (auto simp: links_insert)
    then show ?case
    proof cases
      case 1
      with step.IH show ?thesis using joined_trans joined_sym joined_refl by blast
    next
      case 2
      with step.IH show ?thesis using joined_trans joined_sym joined_refl by blast
    next
      case 3
      then have "joined S y z" by (auto simp: joined_rtrancl)
      with step.IH show ?thesis using joined_trans by blast
    qed
  qed
next
  assume r: ?R
  have sub: "S \<subseteq> insert (c, d, w) S" by auto
  have cd: "joined (insert (c, d, w) S) c d" by (rule joined_edge [of _ _ w]) simp
  have dc: "joined (insert (c, d, w) S) d c" by (rule joined_sym [OF cd])
  note m = joined_mono [OF sub]
  from r consider "joined S a b" | "joined S a c \<and> joined S d b" | "joined S a d \<and> joined S c b"
    by blast
  then show ?L
  proof cases
    case 1
    then show ?thesis by (rule m)
  next
    case 2
    then have "joined (insert (c, d, w) S) a c" "joined (insert (c, d, w) S) d b"
      by (auto intro: m)
    with cd show ?thesis by (meson joined_trans)
  next
    case 3
    then have "joined (insert (c, d, w) S) a d" "joined (insert (c, d, w) S) c b"
      by (auto intro: m)
    with dc show ?thesis by (meson joined_trans)
  qed
qed

lemma forest_subset: "forest S \<Longrightarrow> S' \<subseteq> S \<Longrightarrow> forest S'"
  unfolding forest_def
proof (intro ballI notI)
  fix x assume f: "\<forall>x\<in>S. \<not> joined (S - {x}) (fst x) (fst (snd x))" and s: "S' \<subseteq> S"
    and x: "x \<in> S'" and j: "joined (S' - {x}) (fst x) (fst (snd x))"
  from s have "S' - {x} \<subseteq> S - {x}" by auto
  from joined_mono [OF this j] f x s show False by auto
qed

lemma forest_insert:
  assumes f: "forest S" and n: "\<not> joined S c d"
  shows "forest (insert (c, d, w) S)"
  unfolding forest_def
proof (intro ballI notI)
  fix x
  assume x: "x \<in> insert (c, d, w) S"
    and j: "joined (insert (c, d, w) S - {x}) (fst x) (fst (snd x))"
  have notin: "(c, d, w) \<notin> S" using n joined_edge by blast
  show False
  proof (cases "x = (c, d, w)")
    case True
    with notin have "insert (c, d, w) S - {x} = S" by auto
    with j True n show False by simp
  next
    case False
    with x have xs: "x \<in> S" by simp
    obtain a b u where xe: "x = (a, b, u)" by (cases x) auto
    from False have "insert (c, d, w) S - {x} = insert (c, d, w) (S - {x})" by auto
    with j xe have "joined (insert (c, d, w) (S - {x})) a b" by simp
    then have "joined (S - {x}) a b \<or> (joined (S - {x}) a c \<and> joined (S - {x}) d b)
       \<or> (joined (S - {x}) a d \<and> joined (S - {x}) c b)"
      by (simp add: joined_insert)
    moreover from f xs xe have nj: "\<not> joined (S - {x}) a b" by (auto simp: forest_def)
    moreover have m: "\<And>p q. joined (S - {x}) p q \<Longrightarrow> joined S p q"
      by (rule joined_mono [of "S - {x}"]) auto
    moreover from xs xe have "joined S a b" by (auto intro: joined_edge)
    ultimately consider "joined S a c \<and> joined S d b \<and> joined S a b"
      | "joined S a d \<and> joined S c b \<and> joined S a b" by blast
    then have "joined S c d"
    proof cases
      case 1
      then show ?thesis by (meson joined_trans joined_sym)
    next
      case 2
      then show ?thesis by (meson joined_trans joined_sym)
    qed
    with n show False by simp
  qed
qed


lemma bridge_swap:
  assumes cd: "joined (insert (a, b, t) R) c d" and ncd: "\<not> joined R c d"
    and xy: "joined (insert (a, b, t) R) x y"
  shows "joined (insert (c, d, w) R) x y"
proof -
  from cd ncd consider "joined R c a \<and> joined R b d" | "joined R c b \<and> joined R a d"
    by (auto simp: joined_insert)
  then show ?thesis
  proof cases
    case 1
    from xy consider "joined R x y" | "joined R x a \<and> joined R b y" | "joined R x b \<and> joined R a y"
      by (auto simp: joined_insert)
    then show ?thesis
    proof cases
      case 1
      then show ?thesis by (simp add: joined_insert)
    next
      case 2
      with \<open>joined R c a \<and> joined R b d\<close> have "joined R x c \<and> joined R d y"
        by (meson joined_trans joined_sym)
      then show ?thesis by (simp add: joined_insert)
    next
      case 3
      with \<open>joined R c a \<and> joined R b d\<close> have "joined R x d \<and> joined R c y"
        by (meson joined_trans joined_sym)
      then show ?thesis by (simp add: joined_insert)
    qed
  next
    case 2
    from xy consider "joined R x y" | "joined R x a \<and> joined R b y" | "joined R x b \<and> joined R a y"
      by (auto simp: joined_insert)
    then show ?thesis
    proof cases
      case 1
      then show ?thesis by (simp add: joined_insert)
    next
      case 2
      with \<open>joined R c b \<and> joined R a d\<close> have "joined R x d \<and> joined R c y"
        by (meson joined_trans joined_sym)
      then show ?thesis by (simp add: joined_insert)
    next
      case 3
      with \<open>joined R c b \<and> joined R a d\<close> have "joined R x c \<and> joined R d y"
        by (meson joined_trans joined_sym)
      then show ?thesis by (simp add: joined_insert)
    qed
  qed
qed

lemma bridge_pair:
  assumes pq: "joined (insert (p, q, u) R) c d" and ab: "joined (insert (a, b, t) R) c d"
    and ncd: "\<not> joined R c d"
  shows "joined (insert (a, b, t) R) p q"
proof -
  from pq ncd consider "joined R c p \<and> joined R q d" | "joined R c q \<and> joined R p d"
    by (auto simp: joined_insert)
  then show ?thesis
  proof cases
    case 1
    from ab ncd consider "joined R c a \<and> joined R b d" | "joined R c b \<and> joined R a d"
      by (auto simp: joined_insert)
    then show ?thesis
    proof cases
      case 1
      with \<open>joined R c p \<and> joined R q d\<close> have "joined R p a \<and> joined R b q"
        by (meson joined_trans joined_sym)
      then show ?thesis by (simp add: joined_insert)
    next
      case 2
      with \<open>joined R c p \<and> joined R q d\<close> have "joined R p b \<and> joined R a q"
        by (meson joined_trans joined_sym)
      then show ?thesis by (simp add: joined_insert)
    qed
  next
    case 2
    from ab ncd consider "joined R c a \<and> joined R b d" | "joined R c b \<and> joined R a d"
      by (auto simp: joined_insert)
    then show ?thesis
    proof cases
      case 1
      with \<open>joined R c q \<and> joined R p d\<close> have "joined R p b \<and> joined R a q"
        by (meson joined_trans joined_sym)
      then show ?thesis by (simp add: joined_insert)
    next
      case 2
      with \<open>joined R c q \<and> joined R p d\<close> have "joined R p a \<and> joined R b q"
        by (meson joined_trans joined_sym)
      then show ?thesis by (simp add: joined_insert)
    qed
  qed
qed

lemma crossing:
  assumes "finite D" and "forest (M \<union> D)" and "M \<inter> D = {}"
    and "joined (M \<union> D) c d" and "\<not> joined M c d"
  shows "\<exists>f \<in> D. \<not> joined (M \<union> D - {f}) c d"
  using assms
proof (induction D rule: finite_induct)
  case empty
  then show ?case by simp
next
  case (insert g D)
  from insert.prems(2) have gM: "g \<notin> M" and MD: "M \<inter> D = {}" by auto
  have Tg: "M \<union> insert g D - {g} = M \<union> D" using gM insert.hyps(2) by auto
  show ?case
  proof (cases "joined (M \<union> D) c d")
    case False
    with Tg show ?thesis by auto
  next
    case True
    have "forest (M \<union> D)" by (rule forest_subset [OF insert.prems(1)]) auto
    from insert.IH [OF this MD True insert.prems(4)]
    obtain f where fD: "f \<in> D" and nf: "\<not> joined (M \<union> D - {f}) c d" by blast
    define R where "R = M \<union> D - {f}"
    obtain a b t where f: "f = (a, b, t)" by (cases f) auto
    obtain p q u where g: "g = (p, q, u)" by (cases g) auto
    from fD insert.hyps(2) have fg: "f \<noteq> g" by auto
    have fR: "insert (a, b, t) R = M \<union> D" using fD by (auto simp: R_def f)
    have gR: "M \<union> insert g D - {f} = insert (p, q, u) R" using fg by (auto simp: R_def g)
    have "\<not> joined (insert (p, q, u) R) c d"
    proof
      assume j: "joined (insert (p, q, u) R) c d"
      have "joined (insert (a, b, t) R) c d" using True fR by simp
      with j have "joined (insert (a, b, t) R) p q"
        using nf unfolding R_def [symmetric] by (rule bridge_pair)
      then have "joined (M \<union> D) p q" using fR by simp
      with insert.prems(1) Tg g show False by (auto simp: forest_def)
    qed
    then have "\<not> joined (M \<union> insert g D - {f}) c d" unfolding gR .
    moreover have "f \<in> insert g D" using fD by simp
    ultimately show ?thesis by blast
  qed
qed

lemma exchange_forest:
  assumes "forest T" and "\<not> joined (T - {f}) c d"
  shows "forest (insert (c, d, w) (T - {f}))"
  by (rule forest_insert [OF forest_subset [OF assms(1)] assms(2)]) auto

lemma exchange_spans:
  assumes sp: "connects n T" and c: "c \<in> {0..<n}" and d: "d \<in> {0..<n}"
    and f: "f \<in> T" and n: "\<not> joined (T - {f}) c d"
  shows "connects n (insert (c, d, w) (T - {f}))"
  unfolding connects_def
proof (intro ballI)
  fix x y assume x: "x \<in> {0..<n}" and y: "y \<in> {0..<n}"
  obtain a b t where fe: "f = (a, b, t)" by (cases f) auto
  have T: "insert (a, b, t) (T - {f}) = T" using f fe by auto
  from sp c d have cd: "joined (insert (a, b, t) (T - {f})) c d" by (simp add: T connects_def)
  from sp x y have xy: "joined (insert (a, b, t) (T - {f})) x y" by (simp add: T connects_def)
  show "joined (insert (c, d, w) (T - {f})) x y"
    by (rule bridge_swap [OF cd n xy])
qed

lemma forest_spanned_eq:
  assumes f: "forest T" and sub: "M \<subseteq> T" and sp: "connects n M"
    and val: "\<forall>(a, b, w) \<in> T. a \<in> {0..<n} \<and> b \<in> {0..<n}"
  shows "T = M"
proof (rule ccontr)
  assume "T \<noteq> M"
  with sub obtain x where x: "x \<in> T" "x \<notin> M" by auto
  obtain a b w where xe: "x = (a, b, w)" by (cases x) auto
  from val x xe sp have "joined M a b" by (auto simp: connects_def)
  moreover have "M \<subseteq> T - {x}" using sub x by auto
  ultimately have "joined (T - {x}) a b" by (rule joined_mono [rotated])
  with f x xe show False by (auto simp: forest_def)
qed

lemma opt_step:
  assumes fo: "forest T" and sp: "connects n T" and TE: "T \<subseteq> E" and fin: "finite T"
    and MT: "M \<subseteq> T" and eE: "(c, d, w) \<in> E" and c: "c \<in> {0..<n}" and d: "d \<in> {0..<n}"
    and ncd: "\<not> joined M c d"
    and light: "\<forall>(a, b, t) \<in> E. t < w \<longrightarrow> joined M a b"
  shows "\<exists>T'. forest T' \<and> connects n T' \<and> T' \<subseteq> E \<and> finite T' \<and>
           insert (c, d, w) M \<subseteq> T' \<and> wt T' \<le> wt T"
proof (cases "(c, d, w) \<in> T")
  case True
  with assms show ?thesis by (intro exI [of _ T]) auto
next
  case False
  define D where "D = T - M"
  have MD: "M \<union> D = T" "M \<inter> D = {}" "finite D" using MT fin by (auto simp: D_def)
  from sp c d have "joined (M \<union> D) c d" by (simp add: MD connects_def)
  with crossing [of D M c d] MD fo ncd
  obtain f where fD: "f \<in> D" and nf: "\<not> joined (T - {f}) c d" by auto
  obtain a b t where f: "f = (a, b, t)" by (cases f) auto
  from fD have fT: "f \<in> T" and fM: "f \<notin> M" by (auto simp: D_def)
  have wt: "w \<le> t"
  proof (rule ccontr)
    assume "\<not> w \<le> t"
    then have "t < w" by simp
    moreover from fT TE f have "(a, b, t) \<in> E" by auto
    ultimately have "joined M a b" using light by fastforce
    moreover have "M \<subseteq> T - {f}" using MT fM by auto
    ultimately have "joined (T - {f}) a b" by (rule joined_mono [rotated])
    with fo fT f show False by (auto simp: forest_def)
  qed
  let ?T' = "insert (c, d, w) (T - {f})"
  have "forest ?T'" by (rule exchange_forest [OF fo nf])
  moreover have "connects n ?T'" by (rule exchange_spans [OF sp c d fT nf])
  moreover have "?T' \<subseteq> E" using TE eE by auto
  moreover have "finite ?T'" using fin by simp
  moreover have "insert (c, d, w) M \<subseteq> ?T'" using MT fM by auto
  moreover have "wt ?T' \<le> wt T"
  proof -
    have "wt ?T' = w + wt (T - {f})" using False fin by (simp add: wt_def)
    moreover have "wt T = t + wt (T - {f})"
      using fT fin f by (simp add: wt_def sum.remove [of T f])
    ultimately show ?thesis using wt by simp
  qed
  ultimately show ?thesis by blast
qed

section \<open>The parent array as a forest\<close>

text \<open>
  A root is an index in range whose entry is itself. From \<open>i\<close> the walk \<open>i\<close>, \<open>parent[i]\<close>,
  \<open>parent[parent[i]]\<close>, ... reaches a root when finitely many steps lead to one. The forest
  invariant: the list has length \<open>n\<close>, its entries are indices in \<open>[0, n)\<close>, and the walk
  from every index reaches a root.
\<close>

definition is_root :: "int list \<Rightarrow> int \<Rightarrow> bool" where
  "is_root parent r \<longleftrightarrow> 0 \<le> r \<and> r < int (length parent) \<and> parent ! nat r = r"

inductive reaches_root :: "int list \<Rightarrow> int \<Rightarrow> bool" for parent where
  here: "is_root parent i \<Longrightarrow> reaches_root parent i"
| up: "0 \<le> i \<Longrightarrow> i < int (length parent) \<Longrightarrow> parent ! nat i \<noteq> i \<Longrightarrow>
       reaches_root parent (parent ! nat i) \<Longrightarrow> reaches_root parent i"

code_pred reaches_root .

definition forest_inv :: "int \<Rightarrow> int list \<Rightarrow> bool" where
  "forest_inv n parent \<longleftrightarrow>
     int (length parent) = n \<and>
     (\<forall>p \<in> set parent. 0 \<le> p \<and> p < n) \<and>
     (\<forall>i \<in> {0..<n}. reaches_root parent i)"

definition roots :: "int list \<Rightarrow> int set" where
  "roots parent = {r. is_root parent r}"

lemma getitem_in: "0 \<le> i \<Longrightarrow> i < int (length xs) \<Longrightarrow> getitem xs i = Inr (xs ! nat i)"
  by (simp add: getitem_def)

lemma setitem_in: "0 \<le> i \<Longrightarrow> i < int (length xs) \<Longrightarrow> setitem xs i x = Inr (xs[nat i := x])"
  by (simp add: setitem_def)

lemma find_set_root: "is_root parent r \<Longrightarrow> find_set parent r = Some (Inr r)"
  by (subst find_set.simps) (simp add: is_root_def getitem_in)

lemma find_set_up:
  "0 \<le> i \<Longrightarrow> i < int (length parent) \<Longrightarrow> parent ! nat i \<noteq> i \<Longrightarrow>
   find_set parent i = find_set parent (parent ! nat i)"
  by (subst find_set.simps) (simp add: getitem_in)

lemma find_set_reaches:
  "reaches_root parent i \<Longrightarrow> \<exists>r. find_set parent i = Some (Inr r) \<and> is_root parent r"
proof (induction rule: reaches_root.induct)
  case (here i)
  then show ?case using find_set_root by blast
next
  case (up i)
  then show ?case by (simp add: find_set_up)
qed

lemma find_set_inv:
  "forest_inv n parent \<Longrightarrow> i \<in> {0..<n} \<Longrightarrow> \<exists>r. find_set parent i = Some (Inr r) \<and> is_root parent r"
  by (auto simp: forest_inv_def intro: find_set_reaches)

lemma is_root_update:
  assumes "0 \<le> x" and "x < int (length parent)"
  shows "is_root (parent[nat x := y]) r \<longleftrightarrow> (if r = x then y = x else is_root parent r)"
proof (cases "r = x")
  case True
  with assms show ?thesis by (auto simp: is_root_def)
next
  case False
  show ?thesis
  proof (cases "0 \<le> r")
    case True
    with False assms have "nat r \<noteq> nat x" by simp
    with False show ?thesis by (simp add: is_root_def)
  next
    case neg: False
    with False show ?thesis by (simp add: is_root_def)
  qed
qed

lemma link_find:
  assumes x: "is_root parent x" and y: "is_root parent y" and xy: "x \<noteq> y"
    and r: "reaches_root parent i"
  shows "reaches_root (parent[nat x := y]) i \<and>
         find_set (parent[nat x := y]) i =
           (if find_set parent i = Some (Inr x) then Some (Inr y) else find_set parent i)"
  using r
proof (induction rule: reaches_root.induct)
  case (here i)
  from x have xr: "0 \<le> x" "x < int (length parent)" by (auto simp: is_root_def)
  have yr': "is_root (parent[nat x := y]) y"
    using y xy by (simp add: is_root_update [OF xr])
  show ?case
  proof (cases "i = x")
    case True
    have ne: "parent[nat x := y] ! nat x \<noteq> x" using xr xy by simp
    have val: "parent[nat x := y] ! nat x = y" using xr by simp
    have "reaches_root (parent[nat x := y]) x"
      by (rule reaches_root.up) (use xr ne val yr' in \<open>auto intro: reaches_root.here\<close>)
    moreover have "find_set (parent[nat x := y]) x = Some (Inr y)"
      using find_set_up [of x "parent[nat x := y]"] xr ne val find_set_root [OF yr'] by simp
    ultimately show ?thesis using True find_set_root [OF x] by simp
  next
    case False
    with here have r': "is_root (parent[nat x := y]) i" by (simp add: is_root_update [OF xr])
    from False show ?thesis
      using find_set_root [OF r'] find_set_root [OF here] reaches_root.here [OF r'] by simp
  qed
next
  case (up i)
  from x have xr: "0 \<le> x" "x < int (length parent)" "parent ! nat x = x"
    by (auto simp: is_root_def)
  from up.hyps(3) xr have ix: "i \<noteq> x" by auto
  with up.hyps(1) xr have "nat i \<noteq> nat x" by simp
  then have val: "parent[nat x := y] ! nat i = parent ! nat i" by simp
  have "reaches_root (parent[nat x := y]) i"
    by (rule reaches_root.up) (use up val in auto)
  moreover have "find_set (parent[nat x := y]) i = find_set (parent[nat x := y]) (parent ! nat i)"
    using find_set_up [of i "parent[nat x := y]"] up.hyps val by simp
  moreover have "find_set parent i = find_set parent (parent ! nat i)"
    using find_set_up [of i parent] up.hyps by simp
  ultimately show ?case using up.IH by simp
qed

lemma forest_inv_link:
  assumes inv: "forest_inv n parent" and x: "is_root parent x" and y: "is_root parent y"
    and xy: "x \<noteq> y"
  shows "forest_inv n (parent[nat x := y])"
proof -
  from inv have len: "int (length parent) = n" by (simp add: forest_inv_def)
  from y len have yr: "0 \<le> y" "y < n" by (auto simp: is_root_def)
  have "\<forall>p \<in> set (parent[nat x := y]). 0 \<le> p \<and> p < n"
    using inv yr set_update_subset_insert [of parent "nat x" y] by (auto simp: forest_inv_def)
  moreover have "\<forall>i \<in> {0..<n}. reaches_root (parent[nat x := y]) i"
    using inv link_find [OF x y xy] by (auto simp: forest_inv_def)
  ultimately show ?thesis using len by (simp add: forest_inv_def)
qed

lemma finite_roots: "finite (roots parent)"
proof -
  have "roots parent \<subseteq> {0..<int (length parent)}" by (auto simp: roots_def is_root_def)
  then show ?thesis by (rule finite_subset) simp
qed

lemma roots_link:
  assumes x: "is_root parent x" and xy: "x \<noteq> y"
  shows "roots (parent[nat x := y]) = roots parent - {x}"
proof -
  from x have xr: "0 \<le> x" "x < int (length parent)" by (auto simp: is_root_def)
  show ?thesis using xy by (auto simp: roots_def is_root_update [OF xr])
qed

lemma card_roots_link:
  assumes x: "is_root parent x" and xy: "x \<noteq> y"
  shows "int (card (roots (parent[nat x := y]))) = int (card (roots parent)) - 1"
proof -
  have "x \<in> roots parent" using x by (simp add: roots_def)
  then have "card (roots parent) = Suc (card (roots parent - {x}))"
    by (rule card.remove [OF finite_roots])
  then show ?thesis by (simp add: roots_link [OF x xy])
qed

lemma union_rank_roots:
  assumes x: "is_root parent x" and y: "is_root parent y" and len: "length rank = length parent"
  shows "union_rank parent rank x y =
    Some (Inr (if rank ! nat x < rank ! nat y then (parent[nat x := y], rank)
               else if rank ! nat y < rank ! nat x then (parent[nat y := x], rank)
               else (parent[nat y := x], rank[nat x := rank ! nat x + 1])))"
proof -
  from x y have r: "0 \<le> x" "x < int (length parent)" "0 \<le> y" "y < int (length parent)"
    by (auto simp: is_root_def)
  show ?thesis
    unfolding union_rank_def
    using r len by (simp add: find_set_root [OF x] find_set_root [OF y] getitem_in setitem_in)
qed

section \<open>The invariant of the greedy loop\<close>

text \<open>
  \<open>tree_of n g T\<close>: the edge set \<open>T\<close> is a spanning tree on the vertices \<open>0, ..., n - 1\<close>
  drawn from the edge list \<open>g\<close>. The invariant relates the union-find state to the accepted
  edges: two vertices have the same root exactly when the accepted edges join them, every
  edge already read has its endpoints joined by the accepted edges, the number of roots
  plus the number of accepted edges is \<open>n\<close>, and for every spanning tree there is one at
  most as heavy that holds all accepted edges.
\<close>

definition tree_of :: "int \<Rightarrow> edge list \<Rightarrow> edge set \<Rightarrow> bool" where
  "tree_of n g T \<longleftrightarrow> forest T \<and> connects n T \<and> T \<subseteq> set g"

definition loop_inv ::
  "int \<Rightarrow> edge list \<Rightarrow> int list \<Rightarrow> int list \<Rightarrow> nat \<Rightarrow> nat \<Rightarrow> edge list \<Rightarrow> bool" where
  "loop_inv n g parent rank i e mst \<longleftrightarrow>
     forest_inv n parent \<and> length rank = length parent \<and> i \<le> length g \<and> e = length mst \<and>
     set mst \<subseteq> set (take i g) \<and> acyclic_edges mst \<and>
     (\<forall>a \<in> {0..<n}. \<forall>b \<in> {0..<n}.
        (find_set parent a = find_set parent b) = joined (set mst) a b) \<and>
     (\<forall>(a, b, w) \<in> set (take i g). joined (set mst) a b) \<and>
     int (card (roots parent)) + int e = n \<and>
     (\<forall>T. tree_of n g T \<longrightarrow> (\<exists>T'. tree_of n g T' \<and> set mst \<subseteq> T' \<and> wt T' \<le> wt T))"

definition final :: "int \<Rightarrow> edge list \<Rightarrow> edge list \<Rightarrow> bool" where
  "final n g mst \<longleftrightarrow>
     int (length mst) = n - 1 \<and> acyclic_edges mst \<and> set mst \<subseteq> set g \<and>
     connects n (set mst) \<and> (\<forall>T. tree_of n g T \<longrightarrow> wt (set mst) \<le> wt T)"

definition valid_edges :: "int \<Rightarrow> edge list \<Rightarrow> bool" where
  "valid_edges n g \<longleftrightarrow> (\<forall>(a, b, w) \<in> set g. a \<in> {0..<n} \<and> b \<in> {0..<n})"

definition by_weight :: "edge list \<Rightarrow> bool" where
  "by_weight g \<longleftrightarrow> sorted (map (\<lambda>(a, b, w). w) g)"

lemma joined_empty: "joined {} a b \<longleftrightarrow> a = b"
  by (auto simp: joined_def links_def)

lemma same_after_link:
  "X \<noteq> Y \<Longrightarrow> ((if fc = X then Y else fc) = (if fd = X then Y else fd)) \<longleftrightarrow>
     fc = fd \<or> (fc = X \<and> fd = Y) \<or> (fc = Y \<and> fd = X)"
  by auto

lemma lighter_processed:
  assumes s: "by_weight g" and i: "i < length g" and gi: "g ! i = (a, b, w)"
    and m: "(c, d, t) \<in> set g" and l: "t < w"
  shows "(c, d, t) \<in> set (take i g)"
proof -
  from m obtain j where j: "j < length g" "g ! j = (c, d, t)" by (auto simp: in_set_conv_nth)
  have "j < i"
  proof (rule ccontr)
    assume "\<not> j < i"
    then have "i \<le> j" by simp
    with s j(1) have "map (\<lambda>(a, b, w). w) g ! i \<le> map (\<lambda>(a, b, w). w) g ! j"
      unfolding by_weight_def by (intro sorted_nth_mono) auto
    with i j gi l show False by simp
  qed
  with j have "take i g ! j = (c, d, t)" "j < length (take i g)" by auto
  then show ?thesis by (metis nth_mem)
qed

lemma roots_in_range: "forest_inv n parent \<Longrightarrow> r \<in> roots parent \<Longrightarrow> r \<in> {0..<n}"
  by (auto simp: roots_def is_root_def forest_inv_def)

lemma find_set_range:
  assumes "forest_inv n parent" and "a \<in> {0..<n}"
  obtains r where "find_set parent a = Some (Inr r)" and "is_root parent r" and "r \<in> {0..<n}"
proof -
  from find_set_inv [OF assms] obtain r where r: "find_set parent a = Some (Inr r)" "is_root parent r"
    by blast
  then have "r \<in> roots parent" by (simp add: roots_def)
  from roots_in_range [OF assms(1) this] r that show ?thesis by blast
qed


lemma loop_invD:
  assumes "loop_inv n g parent rank i e mst"
  shows "forest_inv n parent" and "length rank = length parent" and "i \<le> length g"
    and "e = length mst" and "set mst \<subseteq> set (take i g)" and "acyclic_edges mst"
    and "\<And>a b. a \<in> {0..<n} \<Longrightarrow> b \<in> {0..<n} \<Longrightarrow>
          (find_set parent a = find_set parent b) = joined (set mst) a b"
    and "\<And>a b w. (a, b, w) \<in> set (take i g) \<Longrightarrow> joined (set mst) a b"
    and "int (card (roots parent)) + int e = n"
    and "\<And>T. tree_of n g T \<Longrightarrow> \<exists>T'. tree_of n g T' \<and> set mst \<subseteq> T' \<and> wt T' \<le> wt T"
  using assms unfolding loop_inv_def by blast+

lemma loop_invI:
  assumes "forest_inv n parent" and "length rank = length parent" and "i \<le> length g"
    and "e = length mst" and "set mst \<subseteq> set (take i g)" and "acyclic_edges mst"
    and "\<And>a b. a \<in> {0..<n} \<Longrightarrow> b \<in> {0..<n} \<Longrightarrow>
          (find_set parent a = find_set parent b) = joined (set mst) a b"
    and "\<And>a b w. (a, b, w) \<in> set (take i g) \<Longrightarrow> joined (set mst) a b"
    and "int (card (roots parent)) + int e = n"
    and "\<And>T. tree_of n g T \<Longrightarrow> \<exists>T'. tree_of n g T' \<and> set mst \<subseteq> T' \<and> wt T' \<le> wt T"
  shows "loop_inv n g parent rank i e mst"
  unfolding loop_inv_def using assms by blast

lemma inv_reject:
  assumes inv: "loop_inv n g parent rank i e mst" and val: "valid_edges n g"
    and i: "i < length g" and gi: "g ! i = (a, b, w)"
    and eq: "find_set parent a = find_set parent b"
  shows "loop_inv n g parent rank (Suc i) e mst"
proof (rule loop_invI)
  note d = loop_invD [OF inv]
  have tk: "set (take (Suc i) g) = insert (a, b, w) (set (take i g))"
    using i gi by (simp add: take_Suc_conv_app_nth)
  from i gi have "(a, b, w) \<in> set g" by (metis nth_mem)
  with val have ab: "a \<in> {0..<n}" "b \<in> {0..<n}" by (auto simp: valid_edges_def)
  have j: "joined (set mst) a b" using d(7) [OF ab] eq by simp
  show "forest_inv n parent" "length rank = length parent" "e = length mst" "acyclic_edges mst"
    "int (card (roots parent)) + int e = n"
    by (rule d)+
  show "Suc i \<le> length g" using i by simp
  show "set mst \<subseteq> set (take (Suc i) g)" using d(5) unfolding tk by blast
  show "\<And>a b. a \<in> {0..<n} \<Longrightarrow> b \<in> {0..<n} \<Longrightarrow>
      (find_set parent a = find_set parent b) = joined (set mst) a b" by (rule d(7))
  show "\<And>c d t. (c, d, t) \<in> set (take (Suc i) g) \<Longrightarrow> joined (set mst) c d"
    unfolding tk using j d(8) by auto
  show "\<And>T. tree_of n g T \<Longrightarrow> \<exists>T'. tree_of n g T' \<and> set mst \<subseteq> T' \<and> wt T' \<le> wt T"
    by (rule d(10))
qed

lemma inv_accept_aux:
  assumes inv: "loop_inv n g parent rank i e mst" and val: "valid_edges n g"
    and srt: "by_weight g" and i: "i < length g" and gi: "g ! i = (a, b, w)"
    and fa: "find_set parent a = Some (Inr x)" and fb: "find_set parent b = Some (Inr y)"
    and xy: "x \<noteq> y" and rr: "(r1 = x \<and> r2 = y) \<or> (r1 = y \<and> r2 = x)"
    and len: "length rank' = length parent"
  shows "loop_inv n g (parent[nat r1 := r2]) rank' (Suc i) (Suc e) (mst @ [(a, b, w)])"
proof (rule loop_invI)
  let ?M = "set mst" and ?p = "parent[nat r1 := r2]"
  note d = loop_invD [OF inv]
  note finv = d(1)
  have tk: "set (take (Suc i) g) = insert (a, b, w) (set (take i g))"
    using i gi by (simp add: take_Suc_conv_app_nth)
  from i gi have abg: "(a, b, w) \<in> set g" by (metis nth_mem)
  with val have ab: "a \<in> {0..<n}" "b \<in> {0..<n}" by (auto simp: valid_edges_def)
  from find_set_inv [OF finv ab(1)] fa have xr: "is_root parent x" by auto
  from find_set_inv [OF finv ab(2)] fb have yr: "is_root parent y" by auto
  from rr xr yr xy have r1: "is_root parent r1" and r2: "is_root parent r2" and ne: "r1 \<noteq> r2"
    by auto
  have nj: "\<not> joined ?M a b" using d(7) [OF ab] fa fb xy by simp
  have same: "\<And>c. c \<in> {0..<n} \<Longrightarrow> (find_set parent c = Some (Inr x)) = joined ?M c a"
    "\<And>c. c \<in> {0..<n} \<Longrightarrow> (find_set parent c = Some (Inr y)) = joined ?M c b"
    using d(7) [OF _ ab(1)] d(7) [OF _ ab(2)] fa fb by simp_all
  have M': "set (mst @ [(a, b, w)]) = insert (a, b, w) ?M" by simp
  show "forest_inv n ?p" by (rule forest_inv_link [OF finv r1 r2 ne])
  show "length rank' = length ?p" using len by simp
  show "Suc i \<le> length g" using i by simp
  show "Suc e = length (mst @ [(a, b, w)])" using d(4) by simp
  show "set (mst @ [(a, b, w)]) \<subseteq> set (take (Suc i) g)"
    using d(5) unfolding tk by auto
  have notin: "(a, b, w) \<notin> ?M" using nj joined_edge by blast
  show "acyclic_edges (mst @ [(a, b, w)])"
    using d(6) notin forest_insert [of ?M a b w] nj by (simp add: acyclic_edges_def)
  show "(find_set ?p c = find_set ?p d) = joined (set (mst @ [(a, b, w)])) c d"
    if c: "c \<in> {0..<n}" and d': "d \<in> {0..<n}" for c d
  proof -
    from finv c d' have rc: "reaches_root parent c" and rd: "reaches_root parent d"
      by (auto simp: forest_inv_def)
    have old: "(find_set parent c = find_set parent d) = joined ?M c d"
      by (rule d(7) [OF c d'])
    have "(find_set ?p c = find_set ?p d) \<longleftrightarrow>
      find_set parent c = find_set parent d \<or>
      (find_set parent c = Some (Inr r1) \<and> find_set parent d = Some (Inr r2)) \<or>
      (find_set parent c = Some (Inr r2) \<and> find_set parent d = Some (Inr r1))"
      using link_find [OF r1 r2 ne rc] link_find [OF r1 r2 ne rd] ne
      by (simp add: same_after_link)
    also have "\<dots> \<longleftrightarrow> joined ?M c d \<or> (joined ?M c a \<and> joined ?M d b) \<or>
      (joined ?M c b \<and> joined ?M d a)"
      using rr old same(1) [OF c] same(2) [OF c] same(1) [OF d'] same(2) [OF d'] by auto
    also have "\<dots> \<longleftrightarrow> joined (insert (a, b, w) ?M) c d"
      unfolding joined_insert using joined_sym by blast
    finally show ?thesis by simp
  qed
  have sub: "?M \<subseteq> set (mst @ [(a, b, w)])" by auto
  show "joined (set (mst @ [(a, b, w)])) c d'" if "(c, d', t) \<in> set (take (Suc i) g)" for c d' t
  proof (cases "(c, d', t) = (a, b, w)")
    case True
    have "joined (set (mst @ [(a, b, w)])) a b" by (rule joined_edge [of _ _ w]) simp
    with True show ?thesis by simp
  next
    case False
    with that have "(c, d', t) \<in> set (take i g)" unfolding tk by blast
    from joined_mono [OF sub d(8) [OF this]] show ?thesis .
  qed
  show "int (card (roots ?p)) + int (Suc e) = n"
    using card_roots_link [OF r1 ne] d(9) by simp
  show "\<exists>T'. tree_of n g T' \<and> set (mst @ [(a, b, w)]) \<subseteq> T' \<and> wt T' \<le> wt T"
    if "tree_of n g T" for T
  proof -
    from d(10) [OF that] obtain T1 where t1: "tree_of n g T1" "?M \<subseteq> T1" "wt T1 \<le> wt T"
      by blast
    have light: "\<forall>(c, d, t) \<in> set g. t < w \<longrightarrow> joined ?M c d"
    proof (intro ballI, clarify)
      fix c d' t assume "(c, d', t) \<in> set g" and "t < w"
      then have "(c, d', t) \<in> set (take i g)" by (rule lighter_processed [OF srt i gi])
      then show "joined ?M c d'" by (rule d(8))
    qed
    from t1(1) have "forest T1" "connects n T1" "T1 \<subseteq> set g" "finite T1"
      by (auto simp: tree_of_def intro: finite_subset)
    from opt_step [OF this t1(2) abg ab nj light]
    obtain T' where "forest T'" "connects n T'" "T' \<subseteq> set g" "insert (a, b, w) ?M \<subseteq> T'"
      "wt T' \<le> wt T1" by blast
    with t1(3) show ?thesis
      by (intro exI [of _ T']) (auto simp: tree_of_def)
  qed
qed

declare kruskal_loop.simps [simp del]

lemma loop_exit:
  "\<not> int e < n - 1 \<Longrightarrow> kruskal_loop n g parent rank i e mst = Some (Inr mst)"
  by (subst kruskal_loop.simps) simp

lemma loop_index_error:
  "int e < n - 1 \<Longrightarrow> length g \<le> i \<Longrightarrow>
   kruskal_loop n g parent rank i e mst = Some (Inl IndexError)"
  by (subst kruskal_loop.simps) (simp add: getitem_def)

lemma loop_skip:
  "int e < n - 1 \<Longrightarrow> i < length g \<Longrightarrow> g ! i = (a, b, w) \<Longrightarrow>
   find_set parent a = Some (Inr x) \<Longrightarrow> find_set parent b = Some (Inr x) \<Longrightarrow>
   kruskal_loop n g parent rank i e mst = kruskal_loop n g parent rank (Suc i) e mst"
  by (subst kruskal_loop.simps) (simp add: getitem_def)

lemma loop_take:
  "int e < n - 1 \<Longrightarrow> i < length g \<Longrightarrow> g ! i = (a, b, w) \<Longrightarrow>
   find_set parent a = Some (Inr x) \<Longrightarrow> find_set parent b = Some (Inr y) \<Longrightarrow> x \<noteq> y \<Longrightarrow>
   union_rank parent rank x y = Some (Inr (parent', rank')) \<Longrightarrow>
   kruskal_loop n g parent rank i e mst =
     kruskal_loop n g parent' rank' (Suc i) (Suc e) (mst @ [(a, b, w)])"
  by (subst kruskal_loop.simps) (simp add: getitem_def)

lemma roots_nonempty:
  assumes "forest_inv n parent" and "1 \<le> n"
  shows "1 \<le> card (roots parent)"
proof -
  from assms(2) have "0 \<in> {0..<n}" by simp
  from find_set_range [OF assms(1) this] obtain r where "is_root parent r" by blast
  then have "r \<in> roots parent" by (simp add: roots_def)
  then have "roots parent \<noteq> {}" by blast
  with finite_roots [of parent] have "0 < card (roots parent)" by (simp add: card_gt_0_iff)
  then show ?thesis by simp
qed

lemma loop_done:
  assumes inv: "loop_inv n g parent rank i e mst" and val: "valid_edges n g"
    and n1: "1 \<le> n" and fin: "\<not> int e < n - 1"
  shows "final n g mst"
proof -
  note d = loop_invD [OF inv]
  from roots_nonempty [OF d(1) n1] d(9) fin
  have e: "int e = n - 1" and c1: "card (roots parent) = 1" by auto
  from c1 obtain r0 where r0: "roots parent = {r0}" by (rule card_1_singletonE)
  have conn: "connects n (set mst)"
    unfolding connects_def
  proof (intro ballI)
    fix a b assume a: "a \<in> {0..<n}" and b: "b \<in> {0..<n}"
    from find_set_range [OF d(1) a] obtain ra where ra: "find_set parent a = Some (Inr ra)"
      "is_root parent ra" by blast
    from find_set_range [OF d(1) b] obtain rb where rb: "find_set parent b = Some (Inr rb)"
      "is_root parent rb" by blast
    from ra(2) rb(2) r0 have "ra = r0" "rb = r0" by (auto simp: roots_def)
    with ra rb have "find_set parent a = find_set parent b" by simp
    then show "joined (set mst) a b" using d(7) [OF a b] by simp
  qed
  have sub: "set mst \<subseteq> set g" using d(5) set_take_subset [of i g] by blast
  have opt: "wt (set mst) \<le> wt T" if "tree_of n g T" for T
  proof -
    from d(10) [OF that] obtain T' where t: "tree_of n g T'" "set mst \<subseteq> T'" "wt T' \<le> wt T"
      by blast
    from t(1) val have "\<forall>(a, b, w) \<in> T'. a \<in> {0..<n} \<and> b \<in> {0..<n}"
      unfolding tree_of_def valid_edges_def by blast
    with t(1) have "T' = set mst"
      by (intro forest_spanned_eq [OF _ t(2) conn]) (auto simp: tree_of_def)
    with t(3) show ?thesis by simp
  qed
  show ?thesis
    unfolding final_def using e d(4) d(6) sub conn opt by simp
qed

lemma loop_exhausted:
  assumes inv: "loop_inv n g parent rank i e mst" and i: "length g \<le> i"
    and lt: "int e < n - 1"
  shows "\<not> connects n (set g)"
proof
  assume conn: "connects n (set g)"
  note d = loop_invD [OF inv]
  from i have tk: "take i g = g" by simp
  have all: "joined (set mst) a b" if a: "a \<in> {0..<n}" and b: "b \<in> {0..<n}" for a b
  proof -
    from conn a b have "joined (set g) a b" by (simp add: connects_def)
    then show ?thesis
    proof (rule joined_closed [rotated -1])
      show "\<And>a b w. (a, b, w) \<in> set g \<Longrightarrow> joined (set mst) a b" using d(8) tk by simp
    qed (auto intro: joined_sym joined_trans)
  qed
  have "card (roots parent) \<le> 1"
  proof (cases "roots parent = {}")
    case True
    then show ?thesis by simp
  next
    case False
    then obtain r where r: "r \<in> roots parent" by blast
    have "roots parent \<subseteq> {r}"
    proof
      fix r' assume r': "r' \<in> roots parent"
      from r r' have rr: "is_root parent r" "is_root parent r'" by (simp_all add: roots_def)
      have rng: "r \<in> {0..<n}" "r' \<in> {0..<n}"
        by (rule roots_in_range [OF d(1) r], rule roots_in_range [OF d(1) r'])
      have "joined (set mst) r r'" by (rule all [OF rng])
      with d(7) [OF rng] have "find_set parent r = find_set parent r'" by blast
      then have "(Some (Inr r) :: (error + int) option) = Some (Inr r')"
        unfolding find_set_root [OF rr(1)] find_set_root [OF rr(2)] .
      then show "r' \<in> {r}" by simp
    qed
    then have "card (roots parent) \<le> card {r}" by (intro card_mono) auto
    then show ?thesis by simp
  qed
  with d(9) lt show False by simp
qed

lemma loop_outcome:
  assumes val: "valid_edges n g" and srt: "by_weight g" and n1: "1 \<le> n"
  shows "loop_inv n g parent rank i e mst \<Longrightarrow>
     (\<exists>mst'. kruskal_loop n g parent rank i e mst = Some (Inr mst') \<and> final n g mst') \<or>
     (kruskal_loop n g parent rank i e mst = Some (Inl IndexError) \<and> \<not> connects n (set g))"
proof (induction "length g - i" arbitrary: i e mst parent rank rule: less_induct)
  case less
  note inv = less.prems
  note d = loop_invD [OF inv]
  show ?case
  proof (cases "int e < n - 1")
    case False
    from loop_exit [OF False] loop_done [OF inv val n1 False] show ?thesis by simp
  next
    case lt: True
    show ?thesis
    proof (cases "i < length g")
      case False
      then have "length g \<le> i" by simp
      from loop_index_error [OF lt this] loop_exhausted [OF inv this lt] show ?thesis by simp
    next
      case i: True
      obtain a b w where gi: "g ! i = (a, b, w)" by (cases "g ! i") auto
      from i gi have "(a, b, w) \<in> set g" by (metis nth_mem)
      with val have ab: "a \<in> {0..<n}" "b \<in> {0..<n}" by (auto simp: valid_edges_def)
      from find_set_range [OF d(1) ab(1)] obtain x where x: "find_set parent a = Some (Inr x)"
        "is_root parent x" by blast
      from find_set_range [OF d(1) ab(2)] obtain y where y: "find_set parent b = Some (Inr y)"
        "is_root parent y" by blast
      have m: "length g - Suc i < length g - i" using i by simp
      show ?thesis
      proof (cases "x = y")
        case True
        with x y have eq: "find_set parent a = find_set parent b" by simp
        from y True have yb: "find_set parent b = Some (Inr x)" by simp
        from less.hyps [OF m inv_reject [OF inv val i gi eq]]
        show ?thesis unfolding loop_skip [OF lt i gi x(1) yb] .
      next
        case False
        define parent' where "parent' =
          (if rank ! nat x < rank ! nat y then parent[nat x := y] else parent[nat y := x])"
        define rank' where "rank' =
          (if rank ! nat x < rank ! nat y \<or> rank ! nat y < rank ! nat x then rank
           else rank[nat x := rank ! nat x + 1])"
        have u: "union_rank parent rank x y = Some (Inr (parent', rank'))"
          unfolding union_rank_roots [OF x(2) y(2) d(2)] parent'_def rank'_def by auto
        have len: "length rank' = length parent" using d(2) by (simp add: rank'_def)
        have inv': "loop_inv n g parent' rank' (Suc i) (Suc e) (mst @ [(a, b, w)])"
        proof (cases "rank ! nat x < rank ! nat y")
          case True
          then have "parent' = parent[nat x := y]" by (simp add: parent'_def)
          with inv_accept_aux [OF inv val srt i gi x(1) y(1) False _ len, of x y]
          show ?thesis by simp
        next
          case False
          then have "parent' = parent[nat y := x]" by (simp add: parent'_def)
          with inv_accept_aux [OF inv val srt i gi x(1) y(1) \<open>x \<noteq> y\<close> _ len, of y x]
          show ?thesis by simp
        qed
        from less.hyps [OF m inv']
        show ?thesis unfolding loop_take [OF lt i gi x(1) y(1) False u] .
      qed
    qed
  qed
qed

section \<open>Initialisation and the whole computation\<close>

lemma make_sets_upto:
  "foldl (\<lambda>(parent, rank) node. (parent @ [node], rank @ [0::int])) ([], []) (map int [0..<k]) =
     (map int [0..<k], replicate k 0)"
  by (induction k) (simp_all add: replicate_append_same)

lemma make_sets_eq: "make_sets n = (map int [0..<nat n], replicate (nat n) 0)"
  unfolding make_sets_def by (rule make_sets_upto)

lemma init_is_root: "i \<in> {0..<n} \<Longrightarrow> is_root (map int [0..<nat n]) i"
  by (simp add: is_root_def)

lemma init_forest_inv: "0 \<le> n \<Longrightarrow> forest_inv n (map int [0..<nat n])"
  unfolding forest_inv_def by (auto intro: reaches_root.here init_is_root)

lemma init_roots: "roots (map int [0..<nat n]) = {0..<n}"
  unfolding roots_def using init_is_root [of _ n] by (auto simp: is_root_def split: if_splits)

lemma init_inv:
  assumes "0 \<le> n"
  shows "loop_inv n g (map int [0..<nat n]) (replicate (nat n) 0) 0 0 []"
proof (rule loop_invI)
  show "forest_inv n (map int [0..<nat n])" by (rule init_forest_inv [OF assms])
  show "(find_set (map int [0..<nat n]) a = find_set (map int [0..<nat n]) b) = joined (set []) a b"
    if "a \<in> {0..<n}" and "b \<in> {0..<n}" for a b
    using find_set_root [OF init_is_root [OF that(1)]] find_set_root [OF init_is_root [OF that(2)]]
    by (simp add: joined_empty)
  show "int (card (roots (map int [0..<nat n]))) + int 0 = n"
    using assms by (simp add: init_roots)
  show "acyclic_edges []" by (simp add: acyclic_edges_def forest_def)
  show "\<exists>T'. tree_of n g T' \<and> set [] \<subseteq> T' \<and> wt T' \<le> wt T" if "tree_of n g T" for T
    using that by (intro exI [of _ T]) simp
qed simp_all

lemma by_weight_sort: "by_weight (sort_key (\<lambda>(a, b, w). w) es)"
  by (simp add: by_weight_def)

lemma minimum_cost_acc:
  "foldl (\<lambda>c (a, b, weight). c + weight) k mst = k + total_weight mst"
  by (induction mst arbitrary: k) (auto simp: total_weight_def)

lemma minimum_cost_eq: "minimum_cost mst = total_weight mst"
  by (simp add: minimum_cost_def minimum_cost_acc)

lemma total_weight_wt: "distinct es \<Longrightarrow> total_weight es = wt (set es)"
  by (simp add: total_weight_def wt_def sum_list_distinct_conv_sum_set)

lemma kruskalMST_loop:
  "kruskalMST G =
     (case kruskal_loop (v G) (sort_key (\<lambda>(a, b, w). w) (graph G))
             (map int [0..<nat (v G)]) (replicate (nat (v G)) 0) 0 0 [] of
        None \<Rightarrow> None
      | Some (Inl err) \<Rightarrow> Some (G\<lparr>graph := sort_key (\<lambda>(a, b, w). w) (graph G)\<rparr>, Inl err)
      | Some (Inr mst) \<Rightarrow>
          Some (G\<lparr>graph := sort_key (\<lambda>(a, b, w). w) (graph G)\<rparr>, Inr (mst, minimum_cost mst)))"
  by (simp add: kruskalMST_def make_sets_eq Let_def)

lemma kruskalMST_outcome:
  assumes val: "valid_graph G" and n1: "1 \<le> v G"
  shows "(\<exists>mst. kruskalMST G =
            Some (G\<lparr>graph := sort_key (\<lambda>(a, b, w). w) (graph G)\<rparr>, Inr (mst, minimum_cost mst)) \<and>
            final (v G) (sort_key (\<lambda>(a, b, w). w) (graph G)) mst) \<or>
         (kruskalMST G = Some (G\<lparr>graph := sort_key (\<lambda>(a, b, w). w) (graph G)\<rparr>, Inl IndexError) \<and>
            \<not> connects (v G) (set (graph G)))"
proof -
  let ?g = "sort_key (\<lambda>(a, b, w). w) (graph G)"
  have v: "valid_edges (v G) ?g" using val by (simp add: valid_edges_def valid_graph_def)
  from n1 have "0 \<le> v G" by simp
  from loop_outcome [OF v by_weight_sort n1 init_inv [OF this]]
  show ?thesis unfolding kruskalMST_loop by auto
qed

lemma union_rank_via_roots:
  "find_set parent a = Some (Inr x) \<Longrightarrow> find_set parent b = Some (Inr y) \<Longrightarrow>
   is_root parent x \<Longrightarrow> is_root parent y \<Longrightarrow>
   union_rank parent rank a b = union_rank parent rank x y"
  by (simp add: union_rank_def find_set_root)

lemma union_rank_inv:
  assumes inv: "forest_inv n parent" and len: "length rank = length parent"
    and a: "a \<in> {0..<n}" and b: "b \<in> {0..<n}"
  shows "\<exists>parent' rank'. union_rank parent rank a b = Some (Inr (parent', rank')) \<and>
           forest_inv n parent' \<and> length rank' = length parent'"
proof -
  from find_set_inv [OF inv a] obtain x where x: "find_set parent a = Some (Inr x)"
    "is_root parent x" by blast
  from find_set_inv [OF inv b] obtain y where y: "find_set parent b = Some (Inr y)"
    "is_root parent y" by blast
  note u = union_rank_via_roots [OF x(1) y(1) x(2) y(2), of rank]
    union_rank_roots [OF x(2) y(2) len]
  show ?thesis
  proof (cases "x = y")
    case True
    from x(2) have "parent[nat x := x] = parent"
      using list_update_id [of parent "nat x"] by (simp add: is_root_def)
    with u True inv len show ?thesis by simp
  next
    case False
    from forest_inv_link [OF inv x(2) y(2) False] forest_inv_link [OF inv y(2) x(2)] False
    have "forest_inv n (parent[nat x := y])" "forest_inv n (parent[nat y := x])" by auto
    with u len show ?thesis by simp
  qed
qed

section \<open>The claims\<close>

declare joined_empty [simp]

lemma main_graph_eq:
  "main_graph = \<lparr>v = 4, graph = [(0, 1, 10), (0, 2, 6), (0, 3, 5), (1, 3, 15), (2, 3, 4)]\<rparr>"
  by (simp add: main_graph_def add_edge_def)

lemma range4: "{0..<4::int} = {0, 1, 2, 3}"
  by auto

lemma range3: "{0..<3::int} = {0, 1, 2}"
  by auto

lemma forest_inv_example: "forest_inv 3 [0, 0, 1]"
proof -
  have r0: "reaches_root [0, 0, 1] 0" by (rule reaches_root.here) (simp add: is_root_def)
  have r1: "reaches_root [0, 0, 1] 1" by (rule reaches_root.up) (use r0 in simp_all)
  have r2: "reaches_root [0, 0, 1] 2" by (rule reaches_root.up) (use r1 in simp_all)
  show ?thesis by (simp add: forest_inv_def range3 r0 r1 r2)
qed

lemma find_set_oob:
  "\<not> (- int (length parent) \<le> a \<and> a < int (length parent)) \<Longrightarrow>
   find_set parent a = Some (Inl IndexError)"
  by (subst find_set.simps) (auto simp: getitem_def)

lemma find_set_init:
  assumes "a \<in> {- n..<n}"
  shows "\<exists>r. find_set (map int [0..<nat n]) a = Some (Inr r)"
proof (cases "0 \<le> a")
  case True
  with assms have "a \<in> {0..<n}" by simp
  from find_set_root [OF init_is_root [OF this]] show ?thesis by blast
next
  case False
  with assms have r: "n + a \<in> {0..<n}" and ne: "n + a \<noteq> a" by auto
  from False assms have "getitem (map int [0..<nat n]) a = Inr (n + a)"
    by (auto simp: getitem_def)
  then have "find_set (map int [0..<nat n]) a = find_set (map int [0..<nat n]) (n + a)"
    using ne by (subst find_set.simps) simp
  with find_set_root [OF init_is_root [OF r]] show ?thesis by simp
qed

text \<open>
  Without any assumption on the endpoints the computation still ends: an index in
  \<open>[-n, n)\<close> is read (Python counts a negative index from the end), any other index raises
  \<open>IndexError\<close>, and the accepted edges have their endpoints in \<open>[-n, n)\<close>.
\<close>

lemma find_set_total:
  assumes inv: "forest_inv n parent"
  shows "(a \<in> {- n..<n} \<and> (\<exists>r. find_set parent a = Some (Inr r) \<and> is_root parent r)) \<or>
         (a \<notin> {- n..<n} \<and> find_set parent a = Some (Inl IndexError))"
proof -
  from inv have len: "int (length parent) = n" by (simp add: forest_inv_def)
  consider "a \<in> {0..<n}" | "a \<in> {- n..<0}" | "a \<notin> {- n..<n}" by fastforce
  then show ?thesis
  proof cases
    case 1
    with find_set_inv [OF inv 1] show ?thesis by simp
  next
    case 2
    define q where "q = parent ! nat (n + a)"
    from 2 len have "nat (n + a) < length parent" by auto
    then have "q \<in> set parent" unfolding q_def by (rule nth_mem)
    with inv have q: "q \<in> {0..<n}" by (auto simp: forest_inv_def)
    with 2 have ne: "q \<noteq> a" by auto
    from 2 len have "getitem parent a = Inr q" by (auto simp: getitem_def q_def)
    then have "find_set parent a = find_set parent q"
      using ne by (subst find_set.simps) simp
    with find_set_inv [OF inv q] 2 show ?thesis by simp
  next
    case 3
    then have "\<not> (- int (length parent) \<le> a \<and> a < int (length parent))"
      unfolding len by simp
    from find_set_oob [OF this] 3 show ?thesis by simp
  qed
qed

definition ends_wrapped :: "int \<Rightarrow> edge list \<Rightarrow> bool" where
  "ends_wrapped n es \<longleftrightarrow> (\<forall>(a, b, w) \<in> set es. a \<in> {- n..<n} \<and> b \<in> {- n..<n})"

lemma loop_total:
  "forest_inv n parent \<Longrightarrow> length rank = length parent \<Longrightarrow> ends_wrapped n mst \<Longrightarrow>
   \<exists>res. kruskal_loop n g parent rank i e mst = Some res \<and>
     (\<forall>mst'. res = Inr mst' \<longrightarrow> ends_wrapped n mst')"
proof (induction "length g - i" arbitrary: i e mst parent rank rule: less_induct)
  case less
  note inv = less.prems(1) and len = less.prems(2) and ew = less.prems(3)
  show ?case
  proof (cases "int e < n - 1")
    case False
    from loop_exit [OF False] ew show ?thesis by simp
  next
    case lt: True
    show ?thesis
    proof (cases "i < length g")
      case False
      then have "length g \<le> i" by simp
      from loop_index_error [OF lt this] show ?thesis by simp
    next
      case i: True
      obtain a b w where gi: "g ! i = (a, b, w)" by (cases "g ! i") auto
      have m: "length g - Suc i < length g - i" using i by simp
      have unf: "kruskal_loop n g parent rank i e mst =
          bind_res (find_set parent a) (\<lambda>x. bind_res (find_set parent b) (\<lambda>y.
            if \<not> x = y then
              bind_res (union_rank parent rank x y) (\<lambda>(parent', rank').
                kruskal_loop n g parent' rank' (i + 1) (e + 1) (mst @ [(a, b, w)]))
            else kruskal_loop n g parent rank (i + 1) e mst))"
        using lt i gi by (subst kruskal_loop.simps) (simp add: getitem_def)
      from find_set_total [OF inv, of a] show ?thesis
      proof
        assume "a \<notin> {- n..<n} \<and> find_set parent a = Some (Inl IndexError)"
        then show ?thesis unfolding unf by simp
      next
        assume "a \<in> {- n..<n} \<and> (\<exists>r. find_set parent a = Some (Inr r) \<and> is_root parent r)"
        then obtain x where a: "a \<in> {- n..<n}" and x: "find_set parent a = Some (Inr x)"
          "is_root parent x" by blast
        from find_set_total [OF inv, of b] show ?thesis
        proof
          assume "b \<notin> {- n..<n} \<and> find_set parent b = Some (Inl IndexError)"
          then show ?thesis unfolding unf x(1) by simp
        next
          assume "b \<in> {- n..<n} \<and> (\<exists>r. find_set parent b = Some (Inr r) \<and> is_root parent r)"
          then obtain y where b: "b \<in> {- n..<n}" and y: "find_set parent b = Some (Inr y)"
            "is_root parent y" by blast
          show ?thesis
          proof (cases "x = y")
            case True
            from less.hyps [OF m inv len ew, of e]
            show ?thesis unfolding unf x(1) y(1) using True by simp
          next
            case False
            define parent' where "parent' =
              (if rank ! nat x < rank ! nat y then parent[nat x := y] else parent[nat y := x])"
            define rank' where "rank' =
              (if rank ! nat x < rank ! nat y \<or> rank ! nat y < rank ! nat x then rank
               else rank[nat x := rank ! nat x + 1])"
            have u: "union_rank parent rank x y = Some (Inr (parent', rank'))"
              unfolding union_rank_roots [OF x(2) y(2) len] parent'_def rank'_def by auto
            have inv': "forest_inv n parent'"
              unfolding parent'_def
              using forest_inv_link [OF inv x(2) y(2) False] forest_inv_link [OF inv y(2) x(2)] False
              by auto
            have len': "length rank' = length parent'"
              using len by (simp add: rank'_def parent'_def)
            have ew': "ends_wrapped n (mst @ [(a, b, w)])"
              using ew a b by (simp add: ends_wrapped_def)
            from less.hyps [OF m inv' len' ew', of "Suc e"]
            show ?thesis unfolding unf x(1) y(1) using False u by simp
          qed
        qed
      qed
    qed
  qed
qed

lemma kruskalMST_total:
  "\<exists>r. kruskalMST G = Some (G\<lparr>graph := sort_key (\<lambda>(a, b, w). w) (graph G)\<rparr>, r) \<and>
     (\<forall>mst cost. r = Inr (mst, cost) \<longrightarrow> ends_wrapped (v G) mst)"
proof (cases "2 \<le> v G")
  case True
  then have "0 \<le> v G" by simp
  from loop_total [OF init_forest_inv [OF this], of "replicate (nat (v G)) 0" "[]"
      "sort_key (\<lambda>(a, b, w). w) (graph G)" 0 0]
  obtain res where r: "kruskal_loop (v G) (sort_key (\<lambda>(a, b, w). w) (graph G))
      (map int [0..<nat (v G)]) (replicate (nat (v G)) 0) 0 0 [] = Some res"
      "\<forall>mst'. res = Inr mst' \<longrightarrow> ends_wrapped (v G) mst'"
    by (auto simp: ends_wrapped_def)
  then show ?thesis unfolding kruskalMST_loop by (cases res) auto
next
  case False
  then have "\<not> int 0 < v G - 1" by simp
  from loop_exit [OF this] show ?thesis
    unfolding kruskalMST_loop by (simp add: ends_wrapped_def)
qed

lemma first_edge_index_error:
  assumes "2 \<le> v G" and "sort_key (\<lambda>(a, b, w). w) (graph G) = (a, b, w) # rest"
    and "a \<notin> {- v G..<v G} \<or> b \<notin> {- v G..<v G}"
  shows "kruskalMST G = Some (G\<lparr>graph := (a, b, w) # rest\<rparr>, Inl IndexError)"
proof -
  let ?p = "map int [0..<nat (v G)]"
  have len: "int (length ?p) = v G" using assms(1) by simp
  have "bind_res (find_set ?p a) (\<lambda>x. bind_res (find_set ?p b) (f x)) = Some (Inl IndexError)"
    for f :: "int \<Rightarrow> int \<Rightarrow> (error + edge list) option"
  proof (cases "a \<in> {- v G..<v G}")
    case True
    from find_set_init [OF True] obtain r where r: "find_set ?p a = Some (Inr r)" by blast
    from True assms(3) have "\<not> (- int (length ?p) \<le> b \<and> b < int (length ?p))"
      unfolding len by simp
    from find_set_oob [OF this] r show ?thesis by simp
  next
    case False
    then have "\<not> (- int (length ?p) \<le> a \<and> a < int (length ?p))" unfolding len by simp
    from find_set_oob [OF this] show ?thesis by simp
  qed
  then have "kruskal_loop (v G) ((a, b, w) # rest) ?p (replicate (nat (v G)) 0) 0 0 [] =
      Some (Inl IndexError)"
    using assms(1) by (subst kruskal_loop.simps) (simp add: getitem_def)
  then show ?thesis unfolding kruskalMST_loop assms(2) by simp
qed

text \<open>
  C1. On the graph of \<open>__main__\<close> (4 vertices; edges (0,1,10), (0,2,6), (0,3,5), (1,3,15),
  (2,3,4)) the computation returns, selects exactly the edges (2,3,4), (0,3,5), (0,1,10)
  in this order, and reports the total weight 19.
\<close>

theorem C1_main_scenario:
  "main_graph = \<lparr>v = 4, graph = [(0, 1, 10), (0, 2, 6), (0, 3, 5), (1, 3, 15), (2, 3, 4)]\<rparr> \<and>
   (\<exists>G'. kruskalMST main_graph = Some (G', Inr ([(2, 3, 4), (0, 3, 5), (0, 1, 10)], 19)))"
proof -
  have "kruskalMST main_graph =
    Some (\<lparr>v = 4, graph = [(2, 3, 4), (0, 3, 5), (0, 2, 6), (0, 1, 10), (1, 3, 15)]\<rparr>,
          Inr ([(2, 3, 4), (0, 3, 5), (0, 1, 10)], 19))"
    by code_simp
  with main_graph_eq show ?thesis by simp
qed

text \<open>
  C2. For every connected graph whose edges have their endpoints in \<open>[0, V)\<close>, the
  computation returns, and the edges it returns are exactly \<open>V - 1\<close> edges of the graph
  that connect all \<open>V\<close> vertices and contain no cycle. (A connected graph on \<open>V\<close> vertices
  has at least \<open>V - 1\<close> edges, so that part of the claim needs no hypothesis of its own.)
\<close>

theorem C2_spanning_tree:
  assumes "valid_graph G" and "connected_graph G"
  shows "\<exists>G' mst cost. kruskalMST G = Some (G', Inr (mst, cost)) \<and>
           int (length mst) = v G - 1 \<and> spanning_tree G mst"
proof -
  from assms(2) have n1: "1 \<le> v G" and conn: "connects (v G) (set (graph G))"
    by (auto simp: connected_graph_def)
  from kruskalMST_outcome [OF assms(1) n1] conn
  obtain mst where m: "kruskalMST G =
      Some (G\<lparr>graph := sort_key (\<lambda>(a, b, w). w) (graph G)\<rparr>, Inr (mst, minimum_cost mst))"
    "final (v G) (sort_key (\<lambda>(a, b, w). w) (graph G)) mst" by blast
  from m(2) have "int (length mst) = v G - 1" "spanning_tree G mst"
    by (simp_all add: final_def spanning_tree_def)
  with m(1) show ?thesis by blast
qed

theorem C2_spanning_tree_witness:
  "valid_graph main_graph \<and> connected_graph main_graph \<and>
   (\<exists>G' mst cost. kruskalMST main_graph = Some (G', Inr (mst, cost)) \<and>
      int (length mst) = v main_graph - 1 \<and> spanning_tree main_graph mst)"
proof -
  have val: "valid_graph main_graph" by (simp add: main_graph_eq valid_graph_def)
  have con: "connected_graph main_graph"
    by (simp add: main_graph_eq connected_graph_def connects_def range4 joined_insert)
  from val con C2_spanning_tree [OF val con] show ?thesis by simp
qed

text \<open>
  C3. For every connected graph (its edges between its vertices) and every spanning tree
  \<open>T\<close> made of edges of the graph, the computation returns, the total it reports is the sum
  of the weights of the edges it selected, and this total is at most the total weight of
  \<open>T\<close>.
\<close>

theorem C3_optimal:
  assumes "valid_graph G" and "connected_graph G" and "spanning_tree G T"
  shows "\<exists>G' mst cost. kruskalMST G = Some (G', Inr (mst, cost)) \<and>
           cost = total_weight mst \<and> cost \<le> total_weight T"
proof -
  let ?g = "sort_key (\<lambda>(a, b, w). w) (graph G)"
  from assms(2) have n1: "1 \<le> v G" and conn: "connects (v G) (set (graph G))"
    by (auto simp: connected_graph_def)
  from kruskalMST_outcome [OF assms(1) n1] conn
  obtain mst where m: "kruskalMST G = Some (G\<lparr>graph := ?g\<rparr>, Inr (mst, minimum_cost mst))"
    "final (v G) ?g mst" by blast
  from assms(3) have "tree_of (v G) ?g (set T)" and dT: "distinct T"
    by (simp_all add: spanning_tree_def tree_of_def acyclic_edges_def)
  with m(2) have "wt (set mst) \<le> wt (set T)" and "distinct mst"
    by (simp_all add: final_def acyclic_edges_def)
  then have "minimum_cost mst \<le> total_weight T"
    using dT by (simp add: minimum_cost_eq total_weight_wt)
  with m(1) show ?thesis by (simp add: minimum_cost_eq)
qed

theorem C3_optimal_witness:
  "valid_graph main_graph \<and> connected_graph main_graph \<and>
   spanning_tree main_graph [(0, 1, 10), (0, 2, 6), (0, 3, 5)] \<and>
   (\<exists>G' mst cost. kruskalMST main_graph = Some (G', Inr (mst, cost)) \<and>
      cost = total_weight mst \<and> cost \<le> total_weight [(0, 1, 10), (0, 2, 6), (0, 3, 5)])"
proof -
  have val: "valid_graph main_graph" by (simp add: main_graph_eq valid_graph_def)
  have con: "connected_graph main_graph"
    by (simp add: main_graph_eq connected_graph_def connects_def range4 joined_insert)
  have st: "spanning_tree main_graph [(0, 1, 10), (0, 2, 6), (0, 3, 5)]"
    by (simp add: main_graph_eq spanning_tree_def acyclic_edges_def forest_def connects_def
        range4 joined_insert insert_Diff_if)
  from val con st C3_optimal [OF val con st] show ?thesis by simp
qed

text \<open>
  C4, as amended. For every disconnected graph with \<open>V \<ge> 2\<close> whose edges have their
  endpoints in \<open>[0, V)\<close>, the computation sorts the edge list and then ends with the
  uncaught \<open>IndexError\<close> of reading \<open>self.graph[i]\<close> past the end: it returns no tree, and
  it reports no disconnected-graph outcome.
\<close>

theorem C4_disconnected_index_error:
  assumes "valid_graph G" and "\<not> connected_graph G" and "2 \<le> v G"
  shows "kruskalMST G =
           Some (G\<lparr>graph := sort_key (\<lambda>(a, b, w). w) (graph G)\<rparr>, Inl IndexError)"
proof -
  let ?g = "sort_key (\<lambda>(a, b, w). w) (graph G)"
  from assms(3) have n1: "1 \<le> v G" by simp
  have no: "\<not> final (v G) ?g mst" for mst
  proof
    assume "final (v G) ?g mst"
    then have "connects (v G) (set mst)" "set mst \<subseteq> set (graph G)" by (simp_all add: final_def)
    then have "connects (v G) (set (graph G))"
      unfolding connects_def using joined_mono by blast
    with assms(2) n1 show False by (simp add: connected_graph_def)
  qed
  from kruskalMST_outcome [OF assms(1) n1] no show ?thesis by blast
qed

theorem C4_disconnected_index_error_witness:
  "valid_graph \<lparr>v = 3, graph = [(0, 1, 2)]\<rparr> \<and>
   \<not> connected_graph \<lparr>v = 3, graph = [(0, 1, 2)]\<rparr> \<and>
   2 \<le> v \<lparr>v = 3, graph = [(0, 1, 2)]\<rparr> \<and>
   kruskalMST \<lparr>v = 3, graph = [(0, 1, 2)]\<rparr> =
     Some (\<lparr>v = 3, graph = [(0, 1, 2)]\<rparr>, Inl IndexError)"
proof -
  have val: "valid_graph \<lparr>v = 3, graph = [(0, 1, 2)]\<rparr>" by (simp add: valid_graph_def)
  have dis: "\<not> connected_graph \<lparr>v = 3, graph = [(0, 1, 2)]\<rparr>"
    by (simp add: connected_graph_def connects_def range3 joined_insert)
  have two: "2 \<le> v \<lparr>v = 3, graph = [(0, 1, 2)]\<rparr>" by simp
  from val dis two C4_disconnected_index_error [OF val dis two] show ?thesis by simp
qed

text \<open>
  The claim as the specification states it fails on 4 vertices with the edges (0,1,1) and
  (2,3,1): the graph is disconnected, and the run ends with the uncaught \<open>IndexError\<close>.
\<close>

theorem C4_disconnected_counterexample:
  "valid_graph \<lparr>v = 4, graph = [(0, 1, 1), (2, 3, 1)]\<rparr> \<and>
   \<not> connected_graph \<lparr>v = 4, graph = [(0, 1, 1), (2, 3, 1)]\<rparr> \<and>
   2 \<le> v \<lparr>v = 4, graph = [(0, 1, 1), (2, 3, 1)]\<rparr> \<and>
   kruskalMST \<lparr>v = 4, graph = [(0, 1, 1), (2, 3, 1)]\<rparr> =
     Some (\<lparr>v = 4, graph = [(0, 1, 1), (2, 3, 1)]\<rparr>, Inl IndexError)"
proof -
  have "kruskalMST \<lparr>v = 4, graph = [(0, 1, 1), (2, 3, 1)]\<rparr> =
     Some (\<lparr>v = 4, graph = [(0, 1, 1), (2, 3, 1)]\<rparr>, Inl IndexError)"
    by code_simp
  moreover have "\<not> connected_graph \<lparr>v = 4, graph = [(0, 1, 1), (2, 3, 1)]\<rparr>"
    by (simp add: connected_graph_def connects_def range4 joined_insert)
  ultimately show ?thesis by (simp add: valid_graph_def)
qed

text \<open>
  C5. The claim has two parts. The value \<open>find\<close> returns is the root of \<open>i\<close>'s set: that
  part holds on every forest (it is part of C10 below). Path compression does not happen:
  \<open>find\<close> contains no assignment, so the list after the call is the list before it. On
  \<open>parent = [1, 2, 2]\<close> the call \<open>find(parent, 0)\<close> returns the root 2, and entry 0 is
  still 1, one step away from the root, although the comment above \<open>find\<close> announces the
  path compression technique.
\<close>

theorem C5_find_reads_only:
  "find_set [1, 2, 2] 0 = Some (Inr 2) \<and> getitem [1, 2, 2] 0 = Inr 1 \<and> is_root [1, 2, 2] 2"
proof -
  have "find_set [1, 2, 2] 0 = Some (Inr 2)" by code_simp
  then show ?thesis by (simp add: getitem_def is_root_def)
qed

text \<open>
  C6. For two distinct roots \<open>x\<close> and \<open>y\<close> of \<open>parent\<close> (with \<open>rank\<close> as long as \<open>parent\<close>),
  \<open>union\<close> returns, and: when \<open>rank[x] < rank[y]\<close> only \<open>parent[x]\<close> changes, to \<open>y\<close>, and
  the ranks are unchanged; when \<open>rank[x] > rank[y]\<close> only \<open>parent[y]\<close> changes, to \<open>x\<close>, and
  the ranks are unchanged; when the ranks are equal, \<open>parent[y]\<close> becomes \<open>x\<close> and
  \<open>rank[x]\<close> grows by one.
\<close>

theorem C6_union_by_rank:
  assumes "is_root parent x" and "is_root parent y" and "x \<noteq> y"
    and "length rank = length parent"
  shows "(rank ! nat x < rank ! nat y \<longrightarrow>
            union_rank parent rank x y = Some (Inr (parent[nat x := y], rank))) \<and>
         (rank ! nat x > rank ! nat y \<longrightarrow>
            union_rank parent rank x y = Some (Inr (parent[nat y := x], rank))) \<and>
         (rank ! nat x = rank ! nat y \<longrightarrow>
            union_rank parent rank x y =
              Some (Inr (parent[nat y := x], rank[nat x := rank ! nat x + 1])))"
  by (simp add: union_rank_roots [OF assms(1) assms(2) assms(4)])

theorem C6_union_by_rank_witness:
  "is_root [0, 1, 1] 0 \<and> is_root [0, 1, 1] 1 \<and> (0::int) \<noteq> 1 \<and>
   length [0, 1 :: int, 0] = length [0, 1 :: int, 1] \<and>
   union_rank [0, 1, 1] [0, 1, 0] 0 1 = Some (Inr ([1, 1, 1], [0, 1, 0])) \<and>
   union_rank [0, 1, 1] [0, 1, 0] 1 0 = Some (Inr ([1, 1, 1], [0, 1, 0])) \<and>
   union_rank [0, 1, 1] [0, 0, 0] 0 1 = Some (Inr ([0, 0, 1], [1, 0, 0]))"
proof -
  have r: "is_root [0, 1, 1] 0" "is_root [0, 1, 1] 1" by (simp_all add: is_root_def)
  have l: "length [0, 1 :: int, 0] = length [0, 1 :: int, 1]"
    "length [0, 0 :: int, 0] = length [0, 1 :: int, 1]" by simp_all
  have n: "(0::int) \<noteq> 1" "(1::int) \<noteq> 0" by simp_all
  from r l C6_union_by_rank [OF r(1) r(2) n(1) l(1)] C6_union_by_rank [OF r(2) r(1) n(2) l(1)]
    C6_union_by_rank [OF r(1) r(2) n(1) l(2)]
  show ?thesis by simp
qed

text \<open>
  C7, as amended. The computation does not validate the endpoints: on every input it
  sorts the edge list first and then returns a result or ends with the uncaught
  \<open>IndexError\<close> of indexing \<open>parent\<close> out of range in \<open>find\<close>; there is no invalid-vertex
  outcome. When it returns, every selected edge has its endpoints in \<open>[-V, V)\<close> (an
  endpoint in \<open>[-V, 0)\<close> is read through Python's negative indexing), and an edge the loop
  never reads is never looked at. When \<open>V \<ge> 2\<close> and the first edge of the sorted list has
  an endpoint outside \<open>[-V, V)\<close>, the outcome is the \<open>IndexError\<close>.
\<close>

theorem C7_no_validation:
  "(\<exists>r. kruskalMST G = Some (G\<lparr>graph := sort_key (\<lambda>(a, b, w). w) (graph G)\<rparr>, r) \<and>
      (\<forall>mst cost. r = Inr (mst, cost) \<longrightarrow> ends_wrapped (v G) mst)) \<and>
   (2 \<le> v G \<and> sort_key (\<lambda>(a, b, w). w) (graph G) = (a, b, w) # rest \<and>
      (a \<notin> {- v G..<v G} \<or> b \<notin> {- v G..<v G}) \<longrightarrow>
    kruskalMST G = Some (G\<lparr>graph := (a, b, w) # rest\<rparr>, Inl IndexError))"
  using kruskalMST_total [of G] first_edge_index_error [of G a b w rest] by blast

theorem C7_no_validation_witness:
  "2 \<le> v \<lparr>v = 2, graph = [(0, 1, 7), (0, 5, 1)]\<rparr> \<and>
   sort_key (\<lambda>(a, b, w). w) (graph \<lparr>v = 2, graph = [(0, 1, 7), (0, 5, 1)]\<rparr>) =
     (0, 5, 1) # [(0, 1, 7)] \<and>
   (5::int) \<notin> {- v \<lparr>v = 2, graph = [(0, 1, 7), (0, 5, 1)]\<rparr>..<v \<lparr>v = 2, graph = [(0, 1, 7), (0, 5, 1)]\<rparr>} \<and>
   kruskalMST \<lparr>v = 2, graph = [(0, 1, 7), (0, 5, 1)]\<rparr> =
     Some (\<lparr>v = 2, graph = [(0, 5, 1), (0, 1, 7)]\<rparr>, Inl IndexError)"
proof -
  let ?G = "\<lparr>v = 2, graph = [(0, 1, 7), (0, 5, 1)]\<rparr>"
  have h1: "2 \<le> v ?G" by simp
  have h2: "sort_key (\<lambda>(a, b, w). w) (graph ?G) = (0, 5, 1) # [(0, 1, 7)]" by simp
  have h3: "(5::int) \<notin> {- v ?G..<v ?G}" by simp
  from h1 h2 h3 C7_no_validation [of ?G 0 5 1 "[(0, 1, 7)]"] show ?thesis by simp
qed

text \<open>
  The claim as the specification states it fails twice. With 2 vertices and the edges
  (0,1,7), (0,5,1) the edge list is sorted first and the out-of-range access then raises
  \<open>IndexError\<close>; with the edges (0,1,1), (0,7,2) the edge to vertex 7 is never read and a
  tree is returned.
\<close>

theorem C7_invalid_vertex_counterexample:
  "\<not> valid_graph \<lparr>v = 2, graph = [(0, 1, 7), (0, 5, 1)]\<rparr> \<and>
   kruskalMST \<lparr>v = 2, graph = [(0, 1, 7), (0, 5, 1)]\<rparr> =
     Some (\<lparr>v = 2, graph = [(0, 5, 1), (0, 1, 7)]\<rparr>, Inl IndexError) \<and>
   \<not> valid_graph \<lparr>v = 2, graph = [(0, 1, 1), (0, 7, 2)]\<rparr> \<and>
   kruskalMST \<lparr>v = 2, graph = [(0, 1, 1), (0, 7, 2)]\<rparr> =
     Some (\<lparr>v = 2, graph = [(0, 1, 1), (0, 7, 2)]\<rparr>, Inr ([(0, 1, 1)], 1))"
proof -
  have "kruskalMST \<lparr>v = 2, graph = [(0, 1, 7), (0, 5, 1)]\<rparr> =
     Some (\<lparr>v = 2, graph = [(0, 5, 1), (0, 1, 7)]\<rparr>, Inl IndexError)"
    by code_simp
  moreover have "kruskalMST \<lparr>v = 2, graph = [(0, 1, 1), (0, 7, 2)]\<rparr> =
     Some (\<lparr>v = 2, graph = [(0, 1, 1), (0, 7, 2)]\<rparr>, Inr ([(0, 1, 1)], 1))"
    by code_simp
  ultimately show ?thesis by (simp add: valid_graph_def)
qed

text \<open>
  C8. For \<open>V = 0\<close> and for \<open>V = 1\<close>, whatever the edge list, the computation returns the empty
  edge list with total weight 0 (the loop body never runs, so no exception is raised).
\<close>

theorem C8_empty_graph:
  assumes "v G = 0 \<or> v G = 1"
  shows "kruskalMST G = Some (G\<lparr>graph := sort_key (\<lambda>(a, b, w). w) (graph G)\<rparr>, Inr ([], 0))"
proof -
  from assms have "\<not> int 0 < v G - 1" by auto
  from loop_exit [OF this] show ?thesis
    unfolding kruskalMST_loop by (simp add: minimum_cost_def)
qed

theorem C8_empty_graph_witness:
  "(v \<lparr>v = 1, graph = [(0, 0, 3), (5, 7, 1)]\<rparr> = 0 \<or> v \<lparr>v = 1, graph = [(0, 0, 3), (5, 7, 1)]\<rparr> = 1) \<and>
   kruskalMST \<lparr>v = 1, graph = [(0, 0, 3), (5, 7, 1)]\<rparr> =
     Some (\<lparr>v = 1, graph = [(5, 7, 1), (0, 0, 3)]\<rparr>, Inr ([], 0))"
proof -
  have h: "v \<lparr>v = 1, graph = [(0, 0, 3), (5, 7, 1)]\<rparr> = 0 \<or> v \<lparr>v = 1, graph = [(0, 0, 3), (5, 7, 1)]\<rparr> = 1"
    by simp
  from h C8_empty_graph [OF h] show ?thesis by simp
qed

text \<open>
  C9. The vertex count is not touched, but \<open>kruskalMST\<close> assigns the sorted list to
  \<open>self.graph\<close>: after the call the graph holds its edges in weight order. The comment
  on that statement says a new graph is created in case the given one may not be
  modified. On the graph of \<open>__main__\<close> the edge order after the call differs from the
  order before it.
\<close>

theorem C9_graph_is_rebound:
  "(\<exists>G' r. kruskalMST main_graph = Some (G', r) \<and> v G' = v main_graph \<and>
      graph G' = [(2, 3, 4), (0, 3, 5), (0, 2, 6), (0, 1, 10), (1, 3, 15)] \<and>
      graph G' \<noteq> graph main_graph)"
proof -
  have "kruskalMST main_graph =
    Some (\<lparr>v = 4, graph = [(2, 3, 4), (0, 3, 5), (0, 2, 6), (0, 1, 10), (1, 3, 15)]\<rparr>,
          Inr ([(2, 3, 4), (0, 3, 5), (0, 1, 10)], 19))"
    by code_simp
  then show ?thesis by (simp add: main_graph_eq)
qed

text \<open>
  C10. The forest invariant (length \<open>n\<close>, entries in \<open>[0, n)\<close>, the walk from every index
  reaches a root) holds of the \<open>parent\<close> list the initialisation loop builds; on a list
  that satisfies it, \<open>find\<close> with an index in range returns, and returns a root (it
  assigns nothing, so the list is as before); and \<open>union\<close> with indices in range returns a
  \<open>parent\<close> list that satisfies it again, with \<open>rank\<close> still as long. The loop changes
  \<open>parent\<close> through \<open>union\<close> only, so the invariant holds throughout the computation,
  and every call of \<open>find\<close> in it ends: the whole computation returns or raises on every
  graph.
\<close>

theorem C10_forest_invariant:
  "(0 \<le> n \<longrightarrow> forest_inv n (fst (make_sets n)) \<and> length (snd (make_sets n)) = length (fst (make_sets n))) \<and>
   (forest_inv n parent \<and> i \<in> {0..<n} \<longrightarrow>
      (\<exists>r. find_set parent i = Some (Inr r) \<and> is_root parent r)) \<and>
   (forest_inv n parent \<and> length rank = length parent \<and> x \<in> {0..<n} \<and> y \<in> {0..<n} \<longrightarrow>
      (\<exists>parent' rank'. union_rank parent rank x y = Some (Inr (parent', rank')) \<and>
         forest_inv n parent' \<and> length rank' = length parent')) \<and>
   (\<exists>r. kruskalMST G = Some (G\<lparr>graph := sort_key (\<lambda>(a, b, w). w) (graph G)\<rparr>, r))"
proof -
  from kruskalMST_total [of G]
  have "\<exists>r. kruskalMST G = Some (G\<lparr>graph := sort_key (\<lambda>(a, b, w). w) (graph G)\<rparr>, r)"
    by blast
  then show ?thesis
    using init_forest_inv [of n] find_set_inv [of n parent i]
      union_rank_inv [of n parent rank x y]
    by (simp add: make_sets_eq)
qed

theorem C10_forest_invariant_witness:
  "(0::int) \<le> 3 \<and> forest_inv 3 (fst (make_sets 3)) \<and>
   forest_inv 3 [0, 0, 1] \<and> (2::int) \<in> {0..<3} \<and> (1::int) \<in> {0..<3} \<and>
   length [1, 0, 0 :: int] = length [0, 0, 1 :: int] \<and>
   (\<exists>r. find_set [0, 0, 1] 2 = Some (Inr r) \<and> is_root [0, 0, 1] r) \<and>
   (\<exists>parent' rank'. union_rank [0, 0, 1] [1, 0, 0] 2 1 = Some (Inr (parent', rank')) \<and>
      forest_inv 3 parent' \<and> length rank' = length parent')"
  using C10_forest_invariant [of 3 "[0, 0, 1]" 2 "[1, 0, 0]" 2 1] forest_inv_example
  by simp

end
